theory Spec2Isabelle
  imports Complex_Main "HOL-Library.Word"
begin

section \<open>Machine types of txmempool.h\<close>

text \<open>
  \<open>uint256\<close> is declared outside the header. The header only compares hashes with
  \<open>==\<close> (the hashed index) and \<open><\<close> (tie breaks); a hash is modelled as the 256-bit
  number its 32 bytes spell, ordered as numbers are.
\<close>

type_synonym uint256 = "256 word"
type_synonym uint64_t = "64 word"
type_synonym int64_t = "64 word"
type_synonym uint32_t = "32 word"
type_synonym CAmount = "64 word"

section \<open>Sentinel constants\<close>

definition MEMPOOL_HEIGHT :: uint32_t where
  "MEMPOOL_HEIGHT = 0x7FFFFFFF"

definition ROLLING_FEE_HALFLIFE :: int where
  "ROLLING_FEE_HALFLIFE = 60 * 60 * 12"

section \<open>Doubles\<close>

text \<open>
  The comparators convert 64-bit integers to \<open>double\<close> and multiply two such
  doubles; \<open>setSanityCheck\<close> multiplies a double by \<open>4294967295.0\<close>. All of these
  values are far from overflow, and none is rounded in the subnormal range, so IEEE 754
  binary64 arithmetic in its default mode (round to nearest, ties to even) is rounding
  to 53 significant bits. A double that is a whole number is modelled by the integer
  it denotes.
\<close>

fun bit_length :: "nat \<Rightarrow> nat" where
  "bit_length n = (if n = 0 then 0 else Suc (bit_length (n div 2)))"

declare bit_length.simps [simp del]

definition round_to_double :: "int \<Rightarrow> int" where
  "round_to_double x =
     (let n = nat \<bar>x\<bar>; k = bit_length n in
      if k \<le> 53 then x
      else
        let s = k - 53;
            q = n div 2 ^ s;
            r = n mod 2 ^ s;
            h = 2 ^ (s - 1);
            q' = (if h < r \<or> (r = h \<and> odd q) then q + 1 else q)
        in sgn x * int (q' * 2 ^ s))"

type_synonym double = int

definition double_of_int64 :: "int64_t \<Rightarrow> double" where
  "double_of_int64 w = round_to_double (sint w)"

definition double_of_uint64 :: "uint64_t \<Rightarrow> double" where
  "double_of_uint64 w = round_to_double (uint w)"

definition double_mult :: "double \<Rightarrow> double \<Rightarrow> double" where
  "double_mult x y = round_to_double (x * y)"

section \<open>DisconnectedBlockTransactions and the transaction reference\<close>

text \<open>
  A \<open>CTransactionRef\<close> is observed by the buffer through two functions only, both
  defined outside the header: \<open>GetHash()\<close> and \<open>RecursiveDynamicUsage(tx)\<close>. The
  record carries what each returns for the transaction.
\<close>

record CTransactionRef =
  GetHash :: uint256
  RecursiveDynamicUsage :: uint64_t

text \<open>
  \<open>queuedTx\<close> is a multi-index container with a \<open>hashed_unique\<close> index on the
  transaction hash and a \<open>sequenced\<close> index; the list is the sequenced index, in
  insertion order.
\<close>

record DisconnectedBlockTransactions =
  queuedTx :: "CTransactionRef list"
  cachedInnerUsage :: uint64_t

datatype failure = AssertionFailed | InvalidIterator

text \<open>\<open>queuedTx.find(hash)\<close> on the hashed index: the stored element with that hash.\<close>

definition find_txid :: "uint256 \<Rightarrow> CTransactionRef list \<Rightarrow> CTransactionRef option" where
  "find_txid h q = find (\<lambda>t. GetHash t = h) q"

text \<open>
  \<open>queuedTx.insert(tx)\<close>: the unique index refuses an element whose hash is already
  stored; otherwise the element goes to the end of the sequence.
\<close>

definition insert_tx :: "CTransactionRef \<Rightarrow> CTransactionRef list \<Rightarrow> CTransactionRef list" where
  "insert_tx tx q = (case find_txid (GetHash tx) q of Some _ \<Rightarrow> q | None \<Rightarrow> q @ [tx])"

definition addTransaction ::
  "CTransactionRef \<Rightarrow> DisconnectedBlockTransactions \<Rightarrow> DisconnectedBlockTransactions" where
  "addTransaction tx b =
     b\<lparr>queuedTx := insert_tx tx (queuedTx b),
       cachedInnerUsage := cachedInnerUsage b + RecursiveDynamicUsage tx\<rparr>"

text \<open>One round of the loop of \<open>removeForBlock\<close>.\<close>

definition removeForBlock_step ::
  "CTransactionRef \<Rightarrow> DisconnectedBlockTransactions \<Rightarrow> DisconnectedBlockTransactions" where
  "removeForBlock_step tx b =
     (case find_txid (GetHash tx) (queuedTx b) of
        None \<Rightarrow> b
      | Some it \<Rightarrow>
          b\<lparr>cachedInnerUsage := cachedInnerUsage b - RecursiveDynamicUsage it,
            queuedTx := remove1 it (queuedTx b)\<rparr>)"

fun removeForBlock_loop ::
  "CTransactionRef list \<Rightarrow> DisconnectedBlockTransactions \<Rightarrow> DisconnectedBlockTransactions" where
  "removeForBlock_loop [] b = b"
| "removeForBlock_loop (tx # vtx) b = removeForBlock_loop vtx (removeForBlock_step tx b)"

definition removeForBlock ::
  "CTransactionRef list \<Rightarrow> DisconnectedBlockTransactions \<Rightarrow> DisconnectedBlockTransactions" where
  "removeForBlock vtx b = (if queuedTx b = [] then b else removeForBlock_loop vtx b)"

text \<open>
  \<open>removeEntry\<close> takes an iterator of the sequenced index: a position in the list.
  Dereferencing an iterator that points at no element is undefined in the source; the
  model reports it.
\<close>

definition removeEntry ::
  "nat \<Rightarrow> DisconnectedBlockTransactions \<Rightarrow> failure + DisconnectedBlockTransactions" where
  "removeEntry entry b =
     (if entry < length (queuedTx b)
      then Inr (b\<lparr>cachedInnerUsage := cachedInnerUsage b - RecursiveDynamicUsage (queuedTx b ! entry),
                 queuedTx := take entry (queuedTx b) @ drop (Suc entry) (queuedTx b)\<rparr>)
      else Inl InvalidIterator)"

definition clear :: "DisconnectedBlockTransactions \<Rightarrow> DisconnectedBlockTransactions" where
  "clear b = b\<lparr>cachedInnerUsage := 0, queuedTx := []\<rparr>"

text \<open>The destructor: \<open>assert(queuedTx.empty())\<close>.\<close>

definition destroy :: "DisconnectedBlockTransactions \<Rightarrow> failure + unit" where
  "destroy b = (if queuedTx b = [] then Inr () else Inl AssertionFailed)"

text \<open>The uniqueness the hashed index maintains, and the accounting the counter is meant to keep.\<close>

definition unique_txids :: "DisconnectedBlockTransactions \<Rightarrow> bool" where
  "unique_txids b = distinct (map GetHash (queuedTx b))"

definition usage_accounted :: "DisconnectedBlockTransactions \<Rightarrow> bool" where
  "usage_accounted b = (cachedInnerUsage b = sum_list (map RecursiveDynamicUsage (queuedTx b)))"

section \<open>CTxMemPoolEntry\<close>

record LockPoints =
  height :: "32 word"
  time :: int64_t
  maxInputBlock :: "nat option"

text \<open>
  The fields of the class, in its order. \<open>GetTxSize()\<close> is declared in the header and
  defined outside it; the field \<open>GetTxSize\<close> carries the virtual size it returns for
  the entry.
\<close>

record CTxMemPoolEntry =
  tx :: CTransactionRef
  nFee :: CAmount
  nTxWeight :: uint64_t
  GetTxSize :: uint64_t
  nUsageSize :: uint64_t
  nTime :: int64_t
  entryHeight :: "32 word"
  spendsCoinbase :: bool
  sigOpCost :: int64_t
  feeDelta :: int64_t
  lockPoints :: LockPoints
  nCountWithDescendants :: uint64_t
  nSizeWithDescendants :: uint64_t
  nModFeesWithDescendants :: CAmount
  nCountWithAncestors :: uint64_t
  nSizeWithAncestors :: uint64_t
  nModFeesWithAncestors :: CAmount
  nSigOpCostWithAncestors :: int64_t
  vTxHashesIdx :: uint64_t

definition GetTx :: "CTxMemPoolEntry \<Rightarrow> CTransactionRef" where
  "GetTx e = tx e"

definition GetFee :: "CTxMemPoolEntry \<Rightarrow> CAmount" where
  "GetFee e = nFee e"

definition GetTime :: "CTxMemPoolEntry \<Rightarrow> int64_t" where
  "GetTime e = nTime e"

text \<open>The sum is a signed 64-bit one; where it overflows the source is undefined, the model wraps.\<close>

definition GetModifiedFee :: "CTxMemPoolEntry \<Rightarrow> int64_t" where
  "GetModifiedFee e = nFee e + feeDelta e"

definition GetSizeWithDescendants :: "CTxMemPoolEntry \<Rightarrow> uint64_t" where
  "GetSizeWithDescendants e = nSizeWithDescendants e"

definition GetModFeesWithDescendants :: "CTxMemPoolEntry \<Rightarrow> CAmount" where
  "GetModFeesWithDescendants e = nModFeesWithDescendants e"

definition GetSizeWithAncestors :: "CTxMemPoolEntry \<Rightarrow> uint64_t" where
  "GetSizeWithAncestors e = nSizeWithAncestors e"

definition GetModFeesWithAncestors :: "CTxMemPoolEntry \<Rightarrow> CAmount" where
  "GetModFeesWithAncestors e = nModFeesWithAncestors e"

text \<open>\<open>mempoolentry_txid\<close> on an entry.\<close>

definition mempoolentry_txid :: "CTxMemPoolEntry \<Rightarrow> uint256" where
  "mempoolentry_txid entry = GetHash (GetTx entry)"

section \<open>The comparators\<close>

text \<open>\<open>CompareTxMemPoolEntryByDescendantScore::GetModFeeAndSize\<close>; the pair is \<open>(mod_fee, size)\<close>.\<close>

definition DescendantScore_GetModFeeAndSize :: "CTxMemPoolEntry \<Rightarrow> double \<times> double" where
  "DescendantScore_GetModFeeAndSize a =
     (let f1 = double_mult (double_of_int64 (GetModifiedFee a))
                           (double_of_uint64 (GetSizeWithDescendants a));
          f2 = double_mult (double_of_int64 (GetModFeesWithDescendants a))
                           (double_of_uint64 (GetTxSize a))
      in if f2 > f1
         then (double_of_int64 (GetModFeesWithDescendants a),
               double_of_uint64 (GetSizeWithDescendants a))
         else (double_of_int64 (GetModifiedFee a), double_of_uint64 (GetTxSize a)))"

definition CompareTxMemPoolEntryByDescendantScore ::
  "CTxMemPoolEntry \<Rightarrow> CTxMemPoolEntry \<Rightarrow> bool" where
  "CompareTxMemPoolEntryByDescendantScore a b =
     (let (a_mod_fee, a_size) = DescendantScore_GetModFeeAndSize a;
          (b_mod_fee, b_size) = DescendantScore_GetModFeeAndSize b;
          f1 = double_mult a_mod_fee b_size;
          f2 = double_mult a_size b_mod_fee
      in if f1 = f2 then sint (GetTime a) \<ge> sint (GetTime b)
         else f1 < f2)"

definition CompareTxMemPoolEntryByScore ::
  "CTxMemPoolEntry \<Rightarrow> CTxMemPoolEntry \<Rightarrow> bool" where
  "CompareTxMemPoolEntryByScore a b =
     (let f1 = double_mult (double_of_int64 (GetFee a)) (double_of_uint64 (GetTxSize b));
          f2 = double_mult (double_of_int64 (GetFee b)) (double_of_uint64 (GetTxSize a))
      in if f1 = f2 then GetHash (GetTx b) < GetHash (GetTx a)
         else f1 > f2)"

definition CompareTxMemPoolEntryByEntryTime ::
  "CTxMemPoolEntry \<Rightarrow> CTxMemPoolEntry \<Rightarrow> bool" where
  "CompareTxMemPoolEntryByEntryTime a b = (sint (GetTime a) < sint (GetTime b))"

text \<open>\<open>CompareTxMemPoolEntryByAncestorFee::GetModFeeAndSize\<close>.\<close>

definition AncestorFee_GetModFeeAndSize :: "CTxMemPoolEntry \<Rightarrow> double \<times> double" where
  "AncestorFee_GetModFeeAndSize a =
     (let f1 = double_mult (double_of_int64 (GetModifiedFee a))
                           (double_of_uint64 (GetSizeWithAncestors a));
          f2 = double_mult (double_of_int64 (GetModFeesWithAncestors a))
                           (double_of_uint64 (GetTxSize a))
      in if f1 > f2
         then (double_of_int64 (GetModFeesWithAncestors a),
               double_of_uint64 (GetSizeWithAncestors a))
         else (double_of_int64 (GetModifiedFee a), double_of_uint64 (GetTxSize a)))"

definition CompareTxMemPoolEntryByAncestorFee ::
  "CTxMemPoolEntry \<Rightarrow> CTxMemPoolEntry \<Rightarrow> bool" where
  "CompareTxMemPoolEntryByAncestorFee a b =
     (let (a_mod_fee, a_size) = AncestorFee_GetModFeeAndSize a;
          (b_mod_fee, b_size) = AncestorFee_GetModFeeAndSize b;
          f1 = double_mult a_mod_fee b_size;
          f2 = double_mult a_size b_mod_fee
      in if f1 = f2 then GetHash (GetTx a) < GetHash (GetTx b)
         else f1 > f2)"

section \<open>CTxMemPool::setSanityCheck\<close>

text \<open>
  The argument \<open>dFrequency\<close> is a double that need not be a whole number. A finite
  double that is not negative is \<open>m / 2^k\<close> for naturals \<open>m < 2^53\<close> and
  \<open>k \<le> 1074\<close>, and is given here by these two numbers.
\<close>

datatype dyadic = Dyadic (mantissa: nat) (scale: nat)

definition dyadic_value :: "dyadic \<Rightarrow> rat" where
  "dyadic_value d = of_nat (mantissa d) / 2 ^ scale d"

definition is_double :: "dyadic \<Rightarrow> bool" where
  "is_double d = (mantissa d < 2 ^ 53 \<and> scale d \<le> 1074)"

text \<open>
  \<open>nCheckFrequency = static_cast<uint32_t>(dFrequency * 4294967295.0)\<close>; the result is
  the value stored in \<open>nCheckFrequency\<close>. The exact product is
  \<open>m * 4294967295 / 2^k\<close>; rounding it to 53 significant bits rounds its numerator;
  the cast truncates, and is undefined in the source when the truncated value does not
  fit 32 bits (\<open>None\<close>).
\<close>

definition setSanityCheck :: "dyadic \<Rightarrow> uint32_t option" where
  "setSanityCheck dFrequency =
     (let product = round_to_double (int (mantissa dFrequency) * 4294967295);
          truncated = product div 2 ^ scale dFrequency
      in if truncated < 2 ^ 32 then Some (word_of_int truncated) else None)"

text \<open>
  Modelled from the spec: \<open>CTxMemPool::check\<close>, which draws the random number and
  compares it with \<open>nCheckFrequency\<close>, is defined outside the header. The header's
  comment on the field, which the specification follows, reads: value \<open>n\<close> means that
  \<open>n\<close> times in \<open>2^32\<close> we check.
\<close>

definition check_probability :: "uint32_t \<Rightarrow> rat" where
  "check_probability n = of_nat (unat n) / 2 ^ 32"

section \<open>The sort values of the specification\<close>

text \<open>
  The specification orders the two score indices by feerates, a modified fee over a
  virtual size. These definitions follow its words, as exact fractions; the
  comparators above are compared with them.
\<close>

definition feerate :: "int \<Rightarrow> int \<Rightarrow> rat" where
  "feerate fee vsize = of_int fee / of_int vsize"

text \<open>The modified fee of an entry is \<open>fee + fee_delta\<close>, as numbers.\<close>

definition modified_fee :: "CTxMemPoolEntry \<Rightarrow> int" where
  "modified_fee e = sint (nFee e) + sint (feeDelta e)"

definition descendant_score :: "CTxMemPoolEntry \<Rightarrow> rat" where
  "descendant_score e =
     max (feerate (modified_fee e) (uint (GetTxSize e)))
         (feerate (sint (GetModFeesWithDescendants e)) (uint (GetSizeWithDescendants e)))"

definition ancestor_score :: "CTxMemPoolEntry \<Rightarrow> rat" where
  "ancestor_score e =
     min (feerate (modified_fee e) (uint (GetTxSize e)))
         (feerate (sint (GetModFeesWithAncestors e)) (uint (GetSizeWithAncestors e)))"

text \<open>
  The range in which the comparators compute without rounding: every size is positive
  and at most \<open>2^53\<close>, and every product of a fee and a size is at most \<open>2^53\<close> in
  magnitude. In it the sum in \<open>GetModifiedFee\<close> does not overflow.
\<close>

definition exact_products :: "int list \<Rightarrow> int list \<Rightarrow> bool" where
  "exact_products fees sizes =
     (\<forall>s \<in> set sizes. 0 < s \<and> s \<le> 2 ^ 53 \<and> (\<forall>f \<in> set fees. \<bar>f\<bar> * s \<le> 2 ^ 53))"

definition descendant_exact :: "CTxMemPoolEntry \<Rightarrow> CTxMemPoolEntry \<Rightarrow> bool" where
  "descendant_exact a b =
     exact_products
       [modified_fee a, sint (GetModFeesWithDescendants a),
        modified_fee b, sint (GetModFeesWithDescendants b)]
       [uint (GetTxSize a), uint (GetSizeWithDescendants a),
        uint (GetTxSize b), uint (GetSizeWithDescendants b)]"

definition ancestor_exact :: "CTxMemPoolEntry \<Rightarrow> CTxMemPoolEntry \<Rightarrow> bool" where
  "ancestor_exact a b =
     exact_products
       [modified_fee a, sint (GetModFeesWithAncestors a),
        modified_fee b, sint (GetModFeesWithAncestors b)]
       [uint (GetTxSize a), uint (GetSizeWithAncestors a),
        uint (GetTxSize b), uint (GetSizeWithAncestors b)]"

text \<open>
  An entry with no relative in the pool, for the examples: hash, fee, virtual size,
  entry time and fee delta are given, the aggregates are those of the entry alone.
\<close>

definition lone_entry ::
  "uint256 \<Rightarrow> CAmount \<Rightarrow> uint64_t \<Rightarrow> int64_t \<Rightarrow> int64_t \<Rightarrow> CTxMemPoolEntry" where
  "lone_entry h fee vsize t delta =
     \<lparr>tx = \<lparr>GetHash = h, RecursiveDynamicUsage = 0\<rparr>,
      nFee = fee, nTxWeight = 4 * vsize, GetTxSize = vsize, nUsageSize = 0,
      nTime = t, entryHeight = 0, spendsCoinbase = False, sigOpCost = 0,
      feeDelta = delta,
      lockPoints = \<lparr>height = 0, time = 0, maxInputBlock = None\<rparr>,
      nCountWithDescendants = 1, nSizeWithDescendants = vsize,
      nModFeesWithDescendants = fee + delta,
      nCountWithAncestors = 1, nSizeWithAncestors = vsize,
      nModFeesWithAncestors = fee + delta,
      nSigOpCostWithAncestors = 0, vTxHashesIdx = 0\<rparr>"

section \<open>Properties\<close>

subsection \<open>Rounding to 53 significant bits\<close>

lemma bit_length_le_iff: "bit_length n \<le> k \<longleftrightarrow> n < 2 ^ k"
proof (induction n arbitrary: k rule: bit_length.induct)
  case (1 n)
  show ?case
  proof (cases "n = 0")
    case True
    then show ?thesis by (simp add: bit_length.simps)
  next
    case False
    show ?thesis
    proof (cases k)
      case 0
      with False show ?thesis by (simp add: bit_length.simps [of n])
    next
      case (Suc j)
      have "bit_length n \<le> Suc j \<longleftrightarrow> bit_length (n div 2) \<le> j"
        using False by (simp add: bit_length.simps [of n])
      also have "\<dots> \<longleftrightarrow> n div 2 < 2 ^ j"
        using False by (rule "1.IH")
      also have "\<dots> \<longleftrightarrow> n < 2 ^ Suc j"
        by auto
      finally show ?thesis using Suc by simp
    qed
  qed
qed

lemma bit_length_lower: "0 < bit_length n \<Longrightarrow> 2 ^ (bit_length n - 1) \<le> n"
proof -
  assume pos: "0 < bit_length n"
  have "\<not> bit_length n \<le> bit_length n - 1" using pos by simp
  then show ?thesis by (simp only: bit_length_le_iff not_less)
qed

lemma bit_length_upper: "n < 2 ^ bit_length n"
  using bit_length_le_iff [of n "bit_length n"] by simp

lemma round_to_double_small: "\<bar>x\<bar> < 2 ^ 53 \<Longrightarrow> round_to_double x = x"
proof -
  assume "\<bar>x\<bar> < 2 ^ 53"
  then have "nat \<bar>x\<bar> < 2 ^ 53" by (simp add: nat_less_iff)
  then have "bit_length (nat \<bar>x\<bar>) \<le> 53" by (simp only: bit_length_le_iff)
  then show ?thesis by (simp add: round_to_double_def Let_def)
qed

lemma round_to_double_pow53: "round_to_double (2 ^ 53) = 2 ^ 53"
  by (simp add: round_to_double_def bit_length.simps Let_def)

lemma round_to_double_neg_pow53: "round_to_double (- (2 ^ 53)) = - (2 ^ 53)"
  by (simp add: round_to_double_def bit_length.simps Let_def)

lemma round_to_double_exact: "\<bar>x\<bar> \<le> 2 ^ 53 \<Longrightarrow> round_to_double x = x"
proof -
  assume "\<bar>x\<bar> \<le> 2 ^ 53"
  then consider "\<bar>x\<bar> < 2 ^ 53" | "x = 2 ^ 53" | "x = - (2 ^ 53)" by linarith
  then show ?thesis
    by cases (simp_all only: round_to_double_small round_to_double_pow53 round_to_double_neg_pow53)
qed

text \<open>
  Known conversions: \<open>2^53 + 1\<close> and \<open>2^53 + 3\<close> lie halfway between two doubles and
  go to the even one; the largest unsigned and signed 64-bit values go up to a power of
  two; the smallest signed one is a double.
\<close>

lemma round_to_double_examples:
  "round_to_double (2 ^ 53 + 1) = 2 ^ 53"
  "round_to_double (2 ^ 53 + 3) = 2 ^ 53 + 4"
  "round_to_double (2 ^ 64 - 1) = 2 ^ 64"
  "round_to_double (2 ^ 63 - 1) = 2 ^ 63"
  "round_to_double (- (2 ^ 63)) = - (2 ^ 63)"
  "round_to_double (- (2 ^ 53) - 1) = - (2 ^ 53)"
  by (simp_all add: round_to_double_def bit_length.simps Let_def)

lemma round_to_double_error:
  assumes "0 \<le> x"
  shows "\<bar>round_to_double x - x\<bar> * 2 ^ 53 \<le> x"
proof (cases "bit_length (nat x) \<le> 53")
  case True
  with assms show ?thesis by (simp add: round_to_double_def Let_def)
next
  case False
  define n where "n = nat x"
  define k where "k = bit_length n"
  define s where "s = k - 53"
  define q where "q = n div 2 ^ s"
  define r where "r = n mod 2 ^ s"
  define h :: nat where "h = 2 ^ (s - 1)"
  define q' where "q' = (if h < r \<or> (r = h \<and> odd q) then q + 1 else q)"
  from False have k: "53 < k" by (simp add: k_def n_def)
  then have s: "0 < s" "k - 1 = (s - 1) + 53" by (simp_all add: s_def)
  have xn: "x = int n" using assms by (simp add: n_def)
  have n_split: "n = q * 2 ^ s + r" unfolding q_def r_def by (rule div_mult_mod_eq [symmetric])
  have r_less: "r < 2 ^ s" by (simp add: r_def)
  have hh: "2 ^ s = 2 * h" using s(1) by (simp add: h_def power_Suc [symmetric] del: power_Suc)
  have lower: "2 ^ (k - 1) \<le> n" using k bit_length_lower [of n] by (simp add: k_def)
  have "(2::nat) ^ (k - 1) = h * 2 ^ 53" by (simp only: s(2) h_def power_add)
  with lower have lower': "h * 2 ^ 53 \<le> n" by simp
  have xpos: "0 < x"
  proof (rule ccontr)
    assume "\<not> 0 < x"
    with assms have "x = 0" by simp
    with False show False by (simp add: bit_length.simps)
  qed
  then have ax: "\<bar>x\<bar> = x" and sx: "sgn x = 1" by simp_all
  have R: "round_to_double x = int (q' * 2 ^ s)"
    unfolding round_to_double_def Let_def ax sx q'_def h_def r_def q_def s_def k_def n_def
    using False by simp
  have "\<bar>int (q' * 2 ^ s) - int n\<bar> \<le> int h"
  proof (cases "h < r \<or> (r = h \<and> odd q)")
    case True
    then have "q' = q + 1" by (simp add: q'_def)
    then have "int (q' * 2 ^ s) - int n = int (2 ^ s) - int r"
      by (simp add: n_split algebra_simps)
    with True r_less hh show ?thesis by auto
  next
    case False
    then have "q' = q" by (simp add: q'_def)
    then have "int (q' * 2 ^ s) - int n = - int r"
      by (simp add: n_split)
    with False show ?thesis by auto
  qed
  then have "\<bar>round_to_double x - x\<bar> \<le> int h"
    unfolding R by (simp only: xn)
  then have "\<bar>round_to_double x - x\<bar> * 2 ^ 53 \<le> int h * 2 ^ 53"
    by (rule mult_right_mono) simp
  also have "\<dots> \<le> int n" using lower' by (metis of_nat_le_iff of_nat_mult of_nat_numeral of_nat_power)
  finally show ?thesis by (simp add: xn)
qed

subsection \<open>Feerates and exact products\<close>

lemma feerate_less_iff:
  "0 < s \<Longrightarrow> 0 < t \<Longrightarrow> feerate f s < feerate g t \<longleftrightarrow> f * t < g * s"
proof -
  assume "0 < s" "0 < t"
  then have "feerate f s < feerate g t \<longleftrightarrow> (of_int (f * t) :: rat) < of_int (g * s)"
    by (simp add: feerate_def field_simps)
  then show ?thesis by (simp only: of_int_less_iff)
qed

lemma feerate_eq_iff:
  "0 < s \<Longrightarrow> 0 < t \<Longrightarrow> feerate f s = feerate g t \<longleftrightarrow> f * t = g * s"
proof -
  assume "0 < s" "0 < t"
  then have "feerate f s = feerate g t \<longleftrightarrow> (of_int (f * t) :: rat) = of_int (g * s)"
    by (simp add: feerate_def field_simps)
  then show ?thesis by (simp only: of_int_eq_iff)
qed

lemma GetModifiedFee_exact:
  assumes "\<bar>modified_fee e\<bar> \<le> 2 ^ 53"
  shows "sint (GetModifiedFee e) = modified_fee e"
proof -
  from assms have "- (2 ^ 63) \<le> sint (nFee e) + sint (feeDelta e)"
    and "sint (nFee e) + sint (feeDelta e) < 2 ^ 63"
    by (simp_all add: modified_fee_def abs_le_iff)
  then have "signed_take_bit 63 (sint (nFee e) + sint (feeDelta e))
      = sint (nFee e) + sint (feeDelta e)"
    by (simp add: signed_take_bit_int_eq_self)
  then show ?thesis
    by (simp add: GetModifiedFee_def modified_fee_def sint_word_add)
qed

lemma double_mult_commute: "double_mult x y = double_mult y x"
  by (simp add: double_mult_def mult.commute)

lemma double_mult_exact: "\<bar>x * y\<bar> \<le> 2 ^ 53 \<Longrightarrow> double_mult x y = x * y"
  by (simp add: double_mult_def round_to_double_exact)


lemma exact_productsD:
  assumes "exact_products fees sizes" and "f \<in> set fees" and "s \<in> set sizes"
  shows "0 < s" and "\<bar>s\<bar> \<le> 2 ^ 53" and "\<bar>f\<bar> \<le> 2 ^ 53" and "\<bar>f * s\<bar> \<le> 2 ^ 53"
    and "\<bar>s * f\<bar> \<le> 2 ^ 53"
proof -
  from assms have s: "0 < s" "s \<le> 2 ^ 53" and fs: "\<bar>f\<bar> * s \<le> 2 ^ 53"
    by (auto simp: exact_products_def)
  show "0 < s" by (rule s(1))
  show "\<bar>s\<bar> \<le> 2 ^ 53" using s by simp
  have "\<bar>f\<bar> * 1 \<le> \<bar>f\<bar> * s" using s(1) by (intro mult_left_mono) simp_all
  with fs show "\<bar>f\<bar> \<le> 2 ^ 53" by simp
  show "\<bar>f * s\<bar> \<le> 2 ^ 53" using fs s(1) by (simp add: abs_mult)
  then show "\<bar>s * f\<bar> \<le> 2 ^ 53" by (simp add: mult.commute)
qed

lemma exact_products_mono:
  "exact_products fees sizes \<Longrightarrow> set fees' \<subseteq> set fees \<Longrightarrow> set sizes' \<subseteq> set sizes \<Longrightarrow>
   exact_products fees' sizes'"
  by (auto simp: exact_products_def)

text \<open>What the comparator of the descendant index computes when nothing is rounded.\<close>

lemma DescendantScore_GetModFeeAndSize_exact:
  assumes "exact_products [modified_fee a, sint (GetModFeesWithDescendants a)]
                          [uint (GetTxSize a), uint (GetSizeWithDescendants a)]"
  shows "DescendantScore_GetModFeeAndSize a =
         (if modified_fee a * uint (GetSizeWithDescendants a)
               < sint (GetModFeesWithDescendants a) * uint (GetTxSize a)
          then (sint (GetModFeesWithDescendants a), uint (GetSizeWithDescendants a))
          else (modified_fee a, uint (GetTxSize a)))"
proof -
  let ?mf = "modified_fee a" and ?fd = "sint (GetModFeesWithDescendants a)"
  let ?sz = "uint (GetTxSize a)" and ?sd = "uint (GetSizeWithDescendants a)"
  have "\<bar>?mf\<bar> \<le> 2 ^ 53" "\<bar>?fd\<bar> \<le> 2 ^ 53" "\<bar>?sz\<bar> \<le> 2 ^ 53" "\<bar>?sd\<bar> \<le> 2 ^ 53"
    using exact_productsD(3) [OF assms, of ?mf ?sz] exact_productsD(3) [OF assms, of ?fd ?sz]
      exact_productsD(2) [OF assms, of ?mf ?sz] exact_productsD(2) [OF assms, of ?mf ?sd]
    by simp_all
  note bounds = this
  from bounds(1) have mf: "sint (GetModifiedFee a) = ?mf" by (rule GetModifiedFee_exact)
  from bounds have conv: "double_of_int64 (GetModifiedFee a) = ?mf"
    "double_of_int64 (GetModFeesWithDescendants a) = ?fd"
    "double_of_uint64 (GetTxSize a) = ?sz"
    "double_of_uint64 (GetSizeWithDescendants a) = ?sd"
    by (simp_all only: double_of_int64_def double_of_uint64_def mf round_to_double_exact)
  have "\<bar>?mf * ?sd\<bar> \<le> 2 ^ 53" "\<bar>?fd * ?sz\<bar> \<le> 2 ^ 53"
    using exact_productsD(4) [OF assms, of ?mf ?sd] exact_productsD(4) [OF assms, of ?fd ?sz]
    by simp_all
  then have prod: "double_mult ?mf ?sd = ?mf * ?sd" "double_mult ?fd ?sz = ?fd * ?sz"
    by (simp_all only: double_mult_exact)
  show ?thesis
    by (simp only: DescendantScore_GetModFeeAndSize_def conv prod Let_def)
qed

lemma DescendantScore_GetModFeeAndSize_score:
  assumes "exact_products [modified_fee a, sint (GetModFeesWithDescendants a)]
                          [uint (GetTxSize a), uint (GetSizeWithDescendants a)]"
  obtains f s where "DescendantScore_GetModFeeAndSize a = (f, s)"
    and "f \<in> {modified_fee a, sint (GetModFeesWithDescendants a)}"
    and "s \<in> {uint (GetTxSize a), uint (GetSizeWithDescendants a)}"
    and "feerate f s = descendant_score a"
proof -
  have pos: "0 < uint (GetTxSize a)" "0 < uint (GetSizeWithDescendants a)"
    using exact_productsD(1) [OF assms, of "modified_fee a" "uint (GetTxSize a)"]
      exact_productsD(1) [OF assms, of "modified_fee a" "uint (GetSizeWithDescendants a)"]
    by simp_all
  show thesis
  proof (cases "modified_fee a * uint (GetSizeWithDescendants a)
               < sint (GetModFeesWithDescendants a) * uint (GetTxSize a)")
    case True
    then have "feerate (modified_fee a) (uint (GetTxSize a))
        < feerate (sint (GetModFeesWithDescendants a)) (uint (GetSizeWithDescendants a))"
      using pos by (simp add: feerate_less_iff)
    then have "feerate (sint (GetModFeesWithDescendants a)) (uint (GetSizeWithDescendants a))
        = descendant_score a"
      by (simp add: descendant_score_def)
    with True show thesis
      by (intro that [of "sint (GetModFeesWithDescendants a)" "uint (GetSizeWithDescendants a)"])
         (simp_all add: DescendantScore_GetModFeeAndSize_exact [OF assms])
  next
    case False
    then have "\<not> feerate (modified_fee a) (uint (GetTxSize a))
        < feerate (sint (GetModFeesWithDescendants a)) (uint (GetSizeWithDescendants a))"
      using pos by (simp add: feerate_less_iff)
    then have "feerate (modified_fee a) (uint (GetTxSize a)) = descendant_score a"
      by (simp add: descendant_score_def max_def)
    with False show thesis
      by (intro that [of "modified_fee a" "uint (GetTxSize a)"])
         (simp_all add: DescendantScore_GetModFeeAndSize_exact [OF assms])
  qed
qed

lemma CompareTxMemPoolEntryByDescendantScore_exact:
  assumes "descendant_exact a b"
  shows "CompareTxMemPoolEntryByDescendantScore a b \<longleftrightarrow>
         descendant_score a < descendant_score b \<or>
         (descendant_score a = descendant_score b \<and> sint (GetTime b) \<le> sint (GetTime a))"
proof -
  let ?fees = "[modified_fee a, sint (GetModFeesWithDescendants a),
        modified_fee b, sint (GetModFeesWithDescendants b)]"
  let ?sizes = "[uint (GetTxSize a), uint (GetSizeWithDescendants a),
        uint (GetTxSize b), uint (GetSizeWithDescendants b)]"
  from assms have all: "exact_products ?fees ?sizes" by (simp add: descendant_exact_def)
  have exa: "exact_products [modified_fee a, sint (GetModFeesWithDescendants a)]
                          [uint (GetTxSize a), uint (GetSizeWithDescendants a)]"
    by (rule exact_products_mono [OF all]) simp_all
  have exb: "exact_products [modified_fee b, sint (GetModFeesWithDescendants b)]
                          [uint (GetTxSize b), uint (GetSizeWithDescendants b)]"
    by (rule exact_products_mono [OF all]) simp_all
  from exa obtain fa sa where a: "DescendantScore_GetModFeeAndSize a = (fa, sa)"
    and fa: "fa \<in> set ?fees" and sa: "sa \<in> set ?sizes"
    and ra: "feerate fa sa = descendant_score a"
    by (rule DescendantScore_GetModFeeAndSize_score) auto
  from exb obtain fb sb where b: "DescendantScore_GetModFeeAndSize b = (fb, sb)"
    and fb: "fb \<in> set ?fees" and sb: "sb \<in> set ?sizes"
    and rb: "feerate fb sb = descendant_score b"
    by (rule DescendantScore_GetModFeeAndSize_score) auto
  have pos: "0 < sa" "0 < sb"
    using exact_productsD(1) [OF all fa sa] exact_productsD(1) [OF all fb sb] by simp_all
  have p1: "double_mult fa sb = fa * sb"
    by (rule double_mult_exact) (rule exact_productsD(4) [OF all fa sb])
  have p2: "double_mult sa fb = sa * fb"
    by (rule double_mult_exact) (rule exact_productsD(5) [OF all fb sa])
  have cmp: "CompareTxMemPoolEntryByDescendantScore a b =
      (if fa * sb = sa * fb then sint (GetTime b) \<le> sint (GetTime a) else fa * sb < sa * fb)"
    by (simp add: CompareTxMemPoolEntryByDescendantScore_def a b p1 p2)
  have lt: "descendant_score a < descendant_score b \<longleftrightarrow> fa * sb < sa * fb"
    using pos by (simp add: ra [symmetric] rb [symmetric] feerate_less_iff mult.commute)
  have eq: "descendant_score a = descendant_score b \<longleftrightarrow> fa * sb = sa * fb"
    using pos by (simp add: ra [symmetric] rb [symmetric] feerate_eq_iff mult.commute)
  show ?thesis unfolding cmp lt eq by auto
qed

text \<open>The same for the comparator of the ancestor index.\<close>

lemma AncestorFee_GetModFeeAndSize_exact:
  assumes "exact_products [modified_fee a, sint (GetModFeesWithAncestors a)]
                          [uint (GetTxSize a), uint (GetSizeWithAncestors a)]"
  shows "AncestorFee_GetModFeeAndSize a =
         (if sint (GetModFeesWithAncestors a) * uint (GetTxSize a)
               < modified_fee a * uint (GetSizeWithAncestors a)
          then (sint (GetModFeesWithAncestors a), uint (GetSizeWithAncestors a))
          else (modified_fee a, uint (GetTxSize a)))"
proof -
  let ?mf = "modified_fee a" and ?fa = "sint (GetModFeesWithAncestors a)"
  let ?sz = "uint (GetTxSize a)" and ?sa = "uint (GetSizeWithAncestors a)"
  have "\<bar>?mf\<bar> \<le> 2 ^ 53" "\<bar>?fa\<bar> \<le> 2 ^ 53" "\<bar>?sz\<bar> \<le> 2 ^ 53" "\<bar>?sa\<bar> \<le> 2 ^ 53"
    using exact_productsD(3) [OF assms, of ?mf ?sz] exact_productsD(3) [OF assms, of ?fa ?sz]
      exact_productsD(2) [OF assms, of ?mf ?sz] exact_productsD(2) [OF assms, of ?mf ?sa]
    by simp_all
  note bounds = this
  from bounds(1) have mf: "sint (GetModifiedFee a) = ?mf" by (rule GetModifiedFee_exact)
  from bounds have conv: "double_of_int64 (GetModifiedFee a) = ?mf"
    "double_of_int64 (GetModFeesWithAncestors a) = ?fa"
    "double_of_uint64 (GetTxSize a) = ?sz"
    "double_of_uint64 (GetSizeWithAncestors a) = ?sa"
    by (simp_all only: double_of_int64_def double_of_uint64_def mf round_to_double_exact)
  have "\<bar>?mf * ?sa\<bar> \<le> 2 ^ 53" "\<bar>?fa * ?sz\<bar> \<le> 2 ^ 53"
    using exact_productsD(4) [OF assms, of ?mf ?sa] exact_productsD(4) [OF assms, of ?fa ?sz]
    by simp_all
  then have prod: "double_mult ?mf ?sa = ?mf * ?sa" "double_mult ?fa ?sz = ?fa * ?sz"
    by (simp_all only: double_mult_exact)
  show ?thesis
    by (simp only: AncestorFee_GetModFeeAndSize_def conv prod Let_def)
qed

lemma AncestorFee_GetModFeeAndSize_score:
  assumes "exact_products [modified_fee a, sint (GetModFeesWithAncestors a)]
                          [uint (GetTxSize a), uint (GetSizeWithAncestors a)]"
  obtains f s where "AncestorFee_GetModFeeAndSize a = (f, s)"
    and "f \<in> {modified_fee a, sint (GetModFeesWithAncestors a)}"
    and "s \<in> {uint (GetTxSize a), uint (GetSizeWithAncestors a)}"
    and "feerate f s = ancestor_score a"
proof -
  have pos: "0 < uint (GetTxSize a)" "0 < uint (GetSizeWithAncestors a)"
    using exact_productsD(1) [OF assms, of "modified_fee a" "uint (GetTxSize a)"]
      exact_productsD(1) [OF assms, of "modified_fee a" "uint (GetSizeWithAncestors a)"]
    by simp_all
  show thesis
  proof (cases "sint (GetModFeesWithAncestors a) * uint (GetTxSize a)
               < modified_fee a * uint (GetSizeWithAncestors a)")
    case True
    then have "feerate (sint (GetModFeesWithAncestors a)) (uint (GetSizeWithAncestors a))
        < feerate (modified_fee a) (uint (GetTxSize a))"
      using pos by (simp add: feerate_less_iff)
    then have "feerate (sint (GetModFeesWithAncestors a)) (uint (GetSizeWithAncestors a))
        = ancestor_score a"
      by (simp add: ancestor_score_def)
    with True show thesis
      by (intro that [of "sint (GetModFeesWithAncestors a)" "uint (GetSizeWithAncestors a)"])
         (simp_all add: AncestorFee_GetModFeeAndSize_exact [OF assms])
  next
    case False
    then have "\<not> feerate (sint (GetModFeesWithAncestors a)) (uint (GetSizeWithAncestors a))
        < feerate (modified_fee a) (uint (GetTxSize a))"
      using pos by (simp add: feerate_less_iff)
    then have "feerate (modified_fee a) (uint (GetTxSize a)) = ancestor_score a"
      by (simp add: ancestor_score_def min_def)
    with False show thesis
      by (intro that [of "modified_fee a" "uint (GetTxSize a)"])
         (simp_all add: AncestorFee_GetModFeeAndSize_exact [OF assms])
  qed
qed

lemma CompareTxMemPoolEntryByAncestorFee_exact:
  assumes "ancestor_exact a b"
  shows "CompareTxMemPoolEntryByAncestorFee a b \<longleftrightarrow>
         ancestor_score b < ancestor_score a \<or>
         (ancestor_score a = ancestor_score b \<and> GetHash (GetTx a) < GetHash (GetTx b))"
proof -
  let ?fees = "[modified_fee a, sint (GetModFeesWithAncestors a),
        modified_fee b, sint (GetModFeesWithAncestors b)]"
  let ?sizes = "[uint (GetTxSize a), uint (GetSizeWithAncestors a),
        uint (GetTxSize b), uint (GetSizeWithAncestors b)]"
  from assms have all: "exact_products ?fees ?sizes" by (simp add: ancestor_exact_def)
  have exa: "exact_products [modified_fee a, sint (GetModFeesWithAncestors a)]
                          [uint (GetTxSize a), uint (GetSizeWithAncestors a)]"
    by (rule exact_products_mono [OF all]) simp_all
  have exb: "exact_products [modified_fee b, sint (GetModFeesWithAncestors b)]
                          [uint (GetTxSize b), uint (GetSizeWithAncestors b)]"
    by (rule exact_products_mono [OF all]) simp_all
  from exa obtain fa sa where a: "AncestorFee_GetModFeeAndSize a = (fa, sa)"
    and fa: "fa \<in> set ?fees" and sa: "sa \<in> set ?sizes"
    and ra: "feerate fa sa = ancestor_score a"
    by (rule AncestorFee_GetModFeeAndSize_score) auto
  from exb obtain fb sb where b: "AncestorFee_GetModFeeAndSize b = (fb, sb)"
    and fb: "fb \<in> set ?fees" and sb: "sb \<in> set ?sizes"
    and rb: "feerate fb sb = ancestor_score b"
    by (rule AncestorFee_GetModFeeAndSize_score) auto
  have pos: "0 < sa" "0 < sb"
    using exact_productsD(1) [OF all fa sa] exact_productsD(1) [OF all fb sb] by simp_all
  have p1: "double_mult fa sb = fa * sb"
    by (rule double_mult_exact) (rule exact_productsD(4) [OF all fa sb])
  have p2: "double_mult sa fb = sa * fb"
    by (rule double_mult_exact) (rule exact_productsD(5) [OF all fb sa])
  have cmp: "CompareTxMemPoolEntryByAncestorFee a b =
      (if fa * sb = sa * fb then GetHash (GetTx a) < GetHash (GetTx b) else sa * fb < fa * sb)"
    by (simp add: CompareTxMemPoolEntryByAncestorFee_def a b p1 p2)
  have lt: "ancestor_score b < ancestor_score a \<longleftrightarrow> sa * fb < fa * sb"
    using pos by (simp add: ra [symmetric] rb [symmetric] feerate_less_iff mult.commute)
  have eq: "ancestor_score a = ancestor_score b \<longleftrightarrow> fa * sb = sa * fb"
    using pos by (simp add: ra [symmetric] rb [symmetric] feerate_eq_iff mult.commute)
  show ?thesis unfolding cmp lt eq by auto
qed

lemma descendant_exact_sym: "descendant_exact a b \<Longrightarrow> descendant_exact b a"
  unfolding descendant_exact_def by (erule exact_products_mono) auto

lemma ancestor_exact_sym: "ancestor_exact a b \<Longrightarrow> ancestor_exact b a"
  unfolding ancestor_exact_def by (erule exact_products_mono) auto

lemmas eval_entry = lone_entry_def modified_fee_def GetModifiedFee_def GetFee_def GetTime_def GetTx_def
  GetSizeWithDescendants_def GetModFeesWithDescendants_def GetSizeWithAncestors_def
  GetModFeesWithAncestors_def

lemmas eval_double = double_mult_def double_of_int64_def double_of_uint64_def
  round_to_double_def bit_length.simps Let_def

subsection \<open>The descendant-score index\<close>

text \<open>
  Claim C1, as the code has it. For two entries in the exact range (positive sizes, and
  every fee, size and product of a fee and a size at most \<open>2^53\<close> in magnitude, so
  that no conversion to double and no product is rounded), the pair that
  \<open>CompareTxMemPoolEntryByDescendantScore::GetModFeeAndSize\<close> returns for an entry has
  the feerate \<open>max(modified_fee/size, mod_fees_with_descendants/size_with_descendants)\<close>;
  the entry with the lower such value orders first; and of two entries with equal
  values the one that entered later orders first.
\<close>

theorem descendant_index_order:
  assumes "descendant_exact a b"
  shows "feerate (fst (DescendantScore_GetModFeeAndSize a)) (snd (DescendantScore_GetModFeeAndSize a))
           = descendant_score a \<and>
         (descendant_score a < descendant_score b \<longrightarrow>
            CompareTxMemPoolEntryByDescendantScore a b \<and>
            \<not> CompareTxMemPoolEntryByDescendantScore b a) \<and>
         (descendant_score a = descendant_score b \<and> sint (GetTime b) < sint (GetTime a) \<longrightarrow>
            CompareTxMemPoolEntryByDescendantScore a b \<and>
            \<not> CompareTxMemPoolEntryByDescendantScore b a)"
proof -
  note ab = CompareTxMemPoolEntryByDescendantScore_exact [OF assms]
  note ba = CompareTxMemPoolEntryByDescendantScore_exact [OF descendant_exact_sym [OF assms]]
  from assms have "exact_products [modified_fee a, sint (GetModFeesWithDescendants a)]
                          [uint (GetTxSize a), uint (GetSizeWithDescendants a)]"
    unfolding descendant_exact_def by (rule exact_products_mono) simp_all
  then obtain f s where "DescendantScore_GetModFeeAndSize a = (f, s)"
    and "feerate f s = descendant_score a"
    by (rule DescendantScore_GetModFeeAndSize_score)
  then have sort_value: "feerate (fst (DescendantScore_GetModFeeAndSize a))
      (snd (DescendantScore_GetModFeeAndSize a)) = descendant_score a"
    by simp
  have strict: "descendant_score a < descendant_score b \<longrightarrow>
      CompareTxMemPoolEntryByDescendantScore a b \<and>
      \<not> CompareTxMemPoolEntryByDescendantScore b a"
    using ab ba by auto
  have tie: "descendant_score a = descendant_score b \<and> sint (GetTime b) < sint (GetTime a) \<longrightarrow>
      CompareTxMemPoolEntryByDescendantScore a b \<and>
      \<not> CompareTxMemPoolEntryByDescendantScore b a"
    using ab ba by auto
  from sort_value strict tie show ?thesis by (intro conjI)
qed

theorem descendant_index_order_witness:
  "descendant_exact (lone_entry 3 500 100 7 0)
     ((lone_entry 1 1000 100 5 0)\<lparr>nSizeWithDescendants := 300, nModFeesWithDescendants := 3000\<rparr>) \<and>
   descendant_score (lone_entry 3 500 100 7 0)
     < descendant_score ((lone_entry 1 1000 100 5 0)\<lparr>nSizeWithDescendants := 300, nModFeesWithDescendants := 3000\<rparr>) \<and>
   CompareTxMemPoolEntryByDescendantScore (lone_entry 3 500 100 7 0)
     ((lone_entry 1 1000 100 5 0)\<lparr>nSizeWithDescendants := 300, nModFeesWithDescendants := 3000\<rparr>) \<and>
   \<not> CompareTxMemPoolEntryByDescendantScore
     ((lone_entry 1 1000 100 5 0)\<lparr>nSizeWithDescendants := 300, nModFeesWithDescendants := 3000\<rparr>)
     (lone_entry 3 500 100 7 0) \<and>
   descendant_exact (lone_entry 2 2000 200 6 0)
     ((lone_entry 1 1000 100 5 0)\<lparr>nSizeWithDescendants := 300, nModFeesWithDescendants := 3000\<rparr>) \<and>
   descendant_score (lone_entry 2 2000 200 6 0)
     = descendant_score ((lone_entry 1 1000 100 5 0)\<lparr>nSizeWithDescendants := 300, nModFeesWithDescendants := 3000\<rparr>) \<and>
   sint (GetTime ((lone_entry 1 1000 100 5 0)\<lparr>nSizeWithDescendants := 300, nModFeesWithDescendants := 3000\<rparr>))
     < sint (GetTime (lone_entry 2 2000 200 6 0)) \<and>
   CompareTxMemPoolEntryByDescendantScore (lone_entry 2 2000 200 6 0)
     ((lone_entry 1 1000 100 5 0)\<lparr>nSizeWithDescendants := 300, nModFeesWithDescendants := 3000\<rparr>) \<and>
   \<not> CompareTxMemPoolEntryByDescendantScore
     ((lone_entry 1 1000 100 5 0)\<lparr>nSizeWithDescendants := 300, nModFeesWithDescendants := 3000\<rparr>)
     (lone_entry 2 2000 200 6 0)"
  using descendant_index_order
    [of "lone_entry 3 500 100 7 0"
        "(lone_entry 1 1000 100 5 0)\<lparr>nSizeWithDescendants := 300, nModFeesWithDescendants := 3000\<rparr>"]
    descendant_index_order
    [of "lone_entry 2 2000 200 6 0"
        "(lone_entry 1 1000 100 5 0)\<lparr>nSizeWithDescendants := 300, nModFeesWithDescendants := 3000\<rparr>"]
  by (simp add: descendant_exact_def exact_products_def descendant_score_def feerate_def eval_entry)

text \<open>
  Claim C1, as stated for every two entries, fails where the doubles round. The two
  entries below have virtual size 100 and no descendants; prioritisation has brought
  the modified fee of the first to \<open>2^53 + 1\<close> and of the second to \<open>2^53\<close>.
  \<open>(double)(2^53 + 1)\<close> is \<open>2^53\<close>, so the comparator sees a tie and decides by
  entry time: the first entry, which has the higher sort value and entered later, orders
  before the second.
\<close>

theorem descendant_order_counterexample:
  "descendant_score (lone_entry 2 1000 100 1 9007199254739992)
     < descendant_score (lone_entry 1 1000 100 2 9007199254739993) \<and>
   CompareTxMemPoolEntryByDescendantScore
     (lone_entry 1 1000 100 2 9007199254739993) (lone_entry 2 1000 100 1 9007199254739992) \<and>
   \<not> CompareTxMemPoolEntryByDescendantScore
     (lone_entry 2 1000 100 1 9007199254739992) (lone_entry 1 1000 100 2 9007199254739993)"
  by (simp add: descendant_score_def feerate_def CompareTxMemPoolEntryByDescendantScore_def
      DescendantScore_GetModFeeAndSize_def eval_entry eval_double)

text \<open>
  Claim C7. A strict weak ordering is irreflexive. \<open>CompareTxMemPoolEntryByDescendantScore\<close>
  is not: comparing an entry with itself, the two products are the same double, and the
  tie is decided by \<open>a.GetTime() >= b.GetTime()\<close>, which holds. Every entry is a
  failing input.
\<close>

theorem CompareTxMemPoolEntryByDescendantScore_reflexive:
  "CompareTxMemPoolEntryByDescendantScore e e"
  by (simp add: CompareTxMemPoolEntryByDescendantScore_def double_mult_commute split: prod.splits)

subsection \<open>The ancestor-score index\<close>

text \<open>
  Claim C2, as the code has it. For two entries in the exact range (as for the
  descendant index, with the ancestor aggregates), the pair that
  \<open>CompareTxMemPoolEntryByAncestorFee::GetModFeeAndSize\<close> returns for an entry has the
  feerate \<open>min(modified_fee/size, mod_fees_with_ancestors/size_with_ancestors)\<close>; the
  entry with the higher such value orders first; and of two entries with equal values
  the one with the smaller transaction hash orders first.
\<close>

theorem ancestor_index_order:
  assumes "ancestor_exact a b"
  shows "feerate (fst (AncestorFee_GetModFeeAndSize a)) (snd (AncestorFee_GetModFeeAndSize a))
           = ancestor_score a \<and>
         (ancestor_score b < ancestor_score a \<longrightarrow>
            CompareTxMemPoolEntryByAncestorFee a b \<and>
            \<not> CompareTxMemPoolEntryByAncestorFee b a) \<and>
         (ancestor_score a = ancestor_score b \<and> GetHash (GetTx a) < GetHash (GetTx b) \<longrightarrow>
            CompareTxMemPoolEntryByAncestorFee a b \<and>
            \<not> CompareTxMemPoolEntryByAncestorFee b a)"
proof -
  note ab = CompareTxMemPoolEntryByAncestorFee_exact [OF assms]
  note ba = CompareTxMemPoolEntryByAncestorFee_exact [OF ancestor_exact_sym [OF assms]]
  from assms have "exact_products [modified_fee a, sint (GetModFeesWithAncestors a)]
                          [uint (GetTxSize a), uint (GetSizeWithAncestors a)]"
    unfolding ancestor_exact_def by (rule exact_products_mono) simp_all
  then obtain f s where "AncestorFee_GetModFeeAndSize a = (f, s)"
    and "feerate f s = ancestor_score a"
    by (rule AncestorFee_GetModFeeAndSize_score)
  then have sort_value: "feerate (fst (AncestorFee_GetModFeeAndSize a))
      (snd (AncestorFee_GetModFeeAndSize a)) = ancestor_score a"
    by simp
  have strict: "ancestor_score b < ancestor_score a \<longrightarrow>
      CompareTxMemPoolEntryByAncestorFee a b \<and> \<not> CompareTxMemPoolEntryByAncestorFee b a"
  proof (intro impI conjI)
    assume lt: "ancestor_score b < ancestor_score a"
    show "CompareTxMemPoolEntryByAncestorFee a b"
      by (rule iffD2 [OF ab]) (rule disjI1, rule lt)
    show "\<not> CompareTxMemPoolEntryByAncestorFee b a"
    proof
      assume "CompareTxMemPoolEntryByAncestorFee b a"
      then have "ancestor_score a < ancestor_score b \<or>
          (ancestor_score b = ancestor_score a \<and> GetHash (GetTx b) < GetHash (GetTx a))"
        by (rule iffD1 [OF ba])
      then have "ancestor_score a \<le> ancestor_score b" by (rule disjE) simp_all
      with lt show False by simp
    qed
  qed
  have tie: "ancestor_score a = ancestor_score b \<and> GetHash (GetTx a) < GetHash (GetTx b) \<longrightarrow>
      CompareTxMemPoolEntryByAncestorFee a b \<and> \<not> CompareTxMemPoolEntryByAncestorFee b a"
  proof (intro impI conjI)
    assume both: "ancestor_score a = ancestor_score b \<and> GetHash (GetTx a) < GetHash (GetTx b)"
    then have eq: "ancestor_score a = ancestor_score b"
      and h: "GetHash (GetTx a) < GetHash (GetTx b)"
      by (rule conjunct1, rule conjunct2)
    show "CompareTxMemPoolEntryByAncestorFee a b"
      by (rule iffD2 [OF ab]) (rule disjI2, rule both)
    show "\<not> CompareTxMemPoolEntryByAncestorFee b a"
    proof
      assume "CompareTxMemPoolEntryByAncestorFee b a"
      then have "ancestor_score a < ancestor_score b \<or>
          (ancestor_score b = ancestor_score a \<and> GetHash (GetTx b) < GetHash (GetTx a))"
        by (rule iffD1 [OF ba])
      then show False
      proof
        assume "ancestor_score a < ancestor_score b"
        with eq show False by simp
      next
        assume "ancestor_score b = ancestor_score a \<and> GetHash (GetTx b) < GetHash (GetTx a)"
        then have "GetHash (GetTx b) < GetHash (GetTx a)" by (rule conjunct2)
        with h show False by (rule order.asym)
      qed
    qed
  qed
  from sort_value strict tie show ?thesis by (intro conjI)
qed

theorem ancestor_index_order_witness:
  "ancestor_exact ((lone_entry 2 2000 200 6 0)\<lparr>nSizeWithAncestors := 300, nModFeesWithAncestors := 3000\<rparr>)
     (lone_entry 3 500 100 7 0) \<and>
   ancestor_score (lone_entry 3 500 100 7 0)
     < ancestor_score ((lone_entry 2 2000 200 6 0)\<lparr>nSizeWithAncestors := 300, nModFeesWithAncestors := 3000\<rparr>) \<and>
   CompareTxMemPoolEntryByAncestorFee
     ((lone_entry 2 2000 200 6 0)\<lparr>nSizeWithAncestors := 300, nModFeesWithAncestors := 3000\<rparr>)
     (lone_entry 3 500 100 7 0) \<and>
   \<not> CompareTxMemPoolEntryByAncestorFee (lone_entry 3 500 100 7 0)
     ((lone_entry 2 2000 200 6 0)\<lparr>nSizeWithAncestors := 300, nModFeesWithAncestors := 3000\<rparr>) \<and>
   ancestor_exact (lone_entry 1 1000 100 5 0)
     ((lone_entry 2 2000 200 6 0)\<lparr>nSizeWithAncestors := 300, nModFeesWithAncestors := 3000\<rparr>) \<and>
   ancestor_score (lone_entry 1 1000 100 5 0)
     = ancestor_score ((lone_entry 2 2000 200 6 0)\<lparr>nSizeWithAncestors := 300, nModFeesWithAncestors := 3000\<rparr>) \<and>
   GetHash (GetTx (lone_entry 1 1000 100 5 0))
     < GetHash (GetTx ((lone_entry 2 2000 200 6 0)\<lparr>nSizeWithAncestors := 300, nModFeesWithAncestors := 3000\<rparr>)) \<and>
   CompareTxMemPoolEntryByAncestorFee (lone_entry 1 1000 100 5 0)
     ((lone_entry 2 2000 200 6 0)\<lparr>nSizeWithAncestors := 300, nModFeesWithAncestors := 3000\<rparr>) \<and>
   \<not> CompareTxMemPoolEntryByAncestorFee
     ((lone_entry 2 2000 200 6 0)\<lparr>nSizeWithAncestors := 300, nModFeesWithAncestors := 3000\<rparr>)
     (lone_entry 1 1000 100 5 0)"
  using ancestor_index_order
    [of "(lone_entry 2 2000 200 6 0)\<lparr>nSizeWithAncestors := 300, nModFeesWithAncestors := 3000\<rparr>"
        "lone_entry 3 500 100 7 0"]
    ancestor_index_order
    [of "lone_entry 1 1000 100 5 0"
        "(lone_entry 2 2000 200 6 0)\<lparr>nSizeWithAncestors := 300, nModFeesWithAncestors := 3000\<rparr>"]
  by (simp add: ancestor_exact_def exact_products_def ancestor_score_def feerate_def eval_entry)

text \<open>
  Claim C2, as stated for every entry, fails where the doubles round. The entries have
  virtual size 100 and no ancestors; the modified fees are \<open>2^53\<close> (hash 1) and
  \<open>2^53 + 1\<close> (hash 2). The comparator sees a tie and decides by hash: the entry with
  the lower sort value orders first.
\<close>

theorem ancestor_order_counterexample:
  "ancestor_score (lone_entry 1 1000 100 1 9007199254739992)
     < ancestor_score (lone_entry 2 1000 100 2 9007199254739993) \<and>
   CompareTxMemPoolEntryByAncestorFee
     (lone_entry 1 1000 100 1 9007199254739992) (lone_entry 2 1000 100 2 9007199254739993) \<and>
   \<not> CompareTxMemPoolEntryByAncestorFee
     (lone_entry 2 1000 100 2 9007199254739993) (lone_entry 1 1000 100 1 9007199254739992)"
  by (simp add: ancestor_score_def feerate_def CompareTxMemPoolEntryByAncestorFee_def
      AncestorFee_GetModFeeAndSize_def eval_entry eval_double)

subsection \<open>The relay ordering\<close>

text \<open>
  Claim C8. \<open>CompareTxMemPoolEntryByScore\<close> reads the raw fee, the virtual size and
  the hash of its arguments and nothing else: two pairs of entries that agree on these
  compare the same, whatever their fee deltas and modified fees are.
\<close>

theorem CompareTxMemPoolEntryByScore_ignores_feeDelta:
  assumes "GetFee a' = GetFee a" and "GetTxSize a' = GetTxSize a"
    and "GetHash (GetTx a') = GetHash (GetTx a)"
    and "GetFee b' = GetFee b" and "GetTxSize b' = GetTxSize b"
    and "GetHash (GetTx b') = GetHash (GetTx b)"
  shows "CompareTxMemPoolEntryByScore a' b' = CompareTxMemPoolEntryByScore a b"
  using assms by (simp add: CompareTxMemPoolEntryByScore_def)

theorem CompareTxMemPoolEntryByScore_ignores_feeDelta_witness:
  "GetFee (lone_entry 1 1000 100 5 777) = GetFee (lone_entry 1 1000 100 5 0) \<and>
   GetTxSize (lone_entry 1 1000 100 5 777) = GetTxSize (lone_entry 1 1000 100 5 0) \<and>
   GetHash (GetTx (lone_entry 1 1000 100 5 777)) = GetHash (GetTx (lone_entry 1 1000 100 5 0)) \<and>
   GetFee (lone_entry 2 1500 200 6 (- 1400)) = GetFee (lone_entry 2 1500 200 6 0) \<and>
   GetTxSize (lone_entry 2 1500 200 6 (- 1400)) = GetTxSize (lone_entry 2 1500 200 6 0) \<and>
   GetHash (GetTx (lone_entry 2 1500 200 6 (- 1400))) = GetHash (GetTx (lone_entry 2 1500 200 6 0)) \<and>
   GetModifiedFee (lone_entry 1 1000 100 5 777) \<noteq> GetModifiedFee (lone_entry 1 1000 100 5 0) \<and>
   GetModifiedFee (lone_entry 2 1500 200 6 (- 1400)) \<noteq> GetModifiedFee (lone_entry 2 1500 200 6 0) \<and>
   CompareTxMemPoolEntryByScore (lone_entry 1 1000 100 5 777) (lone_entry 2 1500 200 6 (- 1400))
     = CompareTxMemPoolEntryByScore (lone_entry 1 1000 100 5 0) (lone_entry 2 1500 200 6 0)"
  using CompareTxMemPoolEntryByScore_ignores_feeDelta
    [of "lone_entry 1 1000 100 5 777" "lone_entry 1 1000 100 5 0"
        "lone_entry 2 1500 200 6 (- 1400)" "lone_entry 2 1500 200 6 0"]
  by (simp add: eval_entry)

subsection \<open>The sanity-check frequency\<close>

text \<open>
  Claim C6, as the code has it. For every double \<open>f\<close> in \<open>[0, 1]\<close>,
  \<open>setSanityCheck(f)\<close> stores \<open>f * 4294967295\<close> truncated to 32 bits. Read as
  "\<open>n\<close> times in \<open>2^32\<close>", the stored value is a probability that never exceeds
  \<open>f\<close> and is less than \<open>3 / 2^32\<close> below it.
\<close>

theorem setSanityCheck_probability:
  assumes dbl: "is_double f" and le1: "dyadic_value f \<le> 1"
  shows "\<exists>n. setSanityCheck f = Some n \<and> check_probability n \<le> dyadic_value f \<and>
             dyadic_value f - check_probability n < 3 / 2 ^ 32"
proof -
  define m where "m = int (mantissa f)"
  define k where "k = scale f"
  define N where "N = m * 4294967295"
  define R where "R = round_to_double N"
  define T where "T = R div 2 ^ k"
  have m0: "0 \<le> m" by (simp add: m_def)
  have mk: "m \<le> 2 ^ k"
  proof -
    from le1 have "(of_nat (mantissa f) :: rat) \<le> 2 ^ k"
      by (simp add: dyadic_value_def k_def divide_le_eq)
    then have "(of_int m :: rat) \<le> of_int (2 ^ k)" by (simp add: m_def)
    then show ?thesis by (simp only: of_int_le_iff)
  qed
  have N0: "0 \<le> N" using m0 by (simp add: N_def)
  have err: "\<bar>R - N\<bar> * 2 ^ 53 \<le> N"
    unfolding R_def using N0 by (rule round_to_double_error)
  have p53: "(2::int) ^ 53 = 9007199254740992" by simp
  have Nm: "N < m * 2 ^ 32 \<or> m = 0" using m0 by (auto simp: N_def)
  have N_le_m53: "N \<le> m * 2 ^ 53" using m0 by (simp add: N_def mult_left_mono)
  have errm: "\<bar>R - N\<bar> \<le> m"
  proof -
    from err N_le_m53 have "\<bar>R - N\<bar> * 2 ^ 53 \<le> m * 2 ^ 53" by (rule order_trans)
    then show ?thesis by simp
  qed
  have R_le: "R \<le> m * 2 ^ 32" using errm m0 by (simp add: N_def abs_le_iff)
  have R_ge: "m * 2 ^ 32 - 2 * m \<le> R" using errm by (simp add: N_def abs_le_iff)
  have R0: "0 \<le> R" using R_ge m0 by simp
  have R_less: "R < 2 ^ k * 2 ^ 32"
  proof (cases "m = 0")
    case True
    with R_le have "R \<le> 0" by simp
    also have "(0::int) < 2 ^ k * 2 ^ 32" by simp
    finally show ?thesis .
  next
    case False
    with m0 have "N < m * 2 ^ 53" by (simp add: N_def)
    with err have "\<bar>R - N\<bar> * 2 ^ 53 < m * 2 ^ 53" by (rule le_less_trans)
    then have "\<bar>R - N\<bar> < m" by simp
    then have "R < m * 2 ^ 32" by (simp add: N_def abs_less_iff)
    also have "m * 2 ^ 32 \<le> 2 ^ k * 2 ^ 32" using mk by (rule mult_right_mono) simp
    finally show ?thesis .
  qed
  have pk: "(0::int) < 2 ^ k" by simp
  have T0: "0 \<le> T" using R0 pk by (simp add: T_def pos_imp_zdiv_nonneg_iff)
  have split: "R = T * 2 ^ k + R mod 2 ^ k"
    unfolding T_def by (rule div_mult_mod_eq [symmetric])
  have "0 \<le> R mod 2 ^ k" using pk by (rule pos_mod_sign)
  with split have Tup: "T * 2 ^ k \<le> R" by linarith
  have "R mod 2 ^ k < 2 ^ k" using pk by (rule pos_mod_bound)
  with split have Tlow: "R < T * 2 ^ k + 2 ^ k" by linarith
  have T32: "T < 2 ^ 32"
  proof -
    have "R < 2 ^ 32 * 2 ^ k" using R_less by (simp only: mult.commute)
    with Tup have "T * 2 ^ k < 2 ^ 32 * 2 ^ k" by (rule le_less_trans)
    then show ?thesis using pk by (simp only: mult_less_cancel_right_pos)
  qed
  have set: "setSanityCheck f = Some (word_of_int T)"
    using T32
    by (simp add: setSanityCheck_def Let_def m_def [symmetric] k_def [symmetric]
        N_def [symmetric] R_def [symmetric] T_def [symmetric])
  have "uint (word_of_int T :: uint32_t) = T"
    using T0 T32 by (simp add: uint_word_of_int take_bit_eq_mod)
  then have "int (unat (word_of_int T :: uint32_t)) = T" by simp
  then have "(of_nat (unat (word_of_int T :: uint32_t)) :: rat) = of_int T"
    by (metis of_int_of_nat_eq)
  then have prob: "check_probability (word_of_int T) = of_int T / 2 ^ 32"
    by (simp add: check_probability_def)
  have val: "dyadic_value f = of_int m / 2 ^ k"
    by (simp add: dyadic_value_def m_def k_def)
  have le_int: "T * 2 ^ k \<le> m * 2 ^ 32" using Tup R_le by (rule order_trans)
  have "(of_int (T * 2 ^ k) :: rat) \<le> of_int (m * 2 ^ 32)"
    using le_int by (simp only: of_int_le_iff)
  then have le_rat: "(of_int T :: rat) / 2 ^ 32 \<le> of_int m / 2 ^ k"
    by (simp add: field_simps)
  have "m * 2 ^ 32 - T * 2 ^ k < 3 * 2 ^ k"
  proof -
    have "2 * m \<le> 2 * 2 ^ k" using mk by simp
    with R_ge Tlow show ?thesis by linarith
  qed
  then have "(of_int (m * 2 ^ 32 - T * 2 ^ k) :: rat) < of_int (3 * 2 ^ k)"
    by (simp only: of_int_less_iff)
  then have lt_rat: "(of_int m :: rat) / 2 ^ k - of_int T / 2 ^ 32 < 3 / 2 ^ 32"
    by (simp add: field_simps)
  from set le_rat lt_rat show ?thesis by (simp add: prob val)
qed

theorem setSanityCheck_probability_witness:
  "is_double (Dyadic 1 1) \<and> dyadic_value (Dyadic 1 1) \<le> 1 \<and>
   (\<exists>n. setSanityCheck (Dyadic 1 1) = Some n \<and>
        check_probability n \<le> dyadic_value (Dyadic 1 1) \<and>
        dyadic_value (Dyadic 1 1) - check_probability n < 3 / 2 ^ 32)"
  using setSanityCheck_probability [of "Dyadic 1 1"]
  by (simp add: is_double_def dyadic_value_def)

text \<open>
  Claim C6, as stated, makes the probability equal to \<open>f\<close> and the check certain at
  \<open>1.0\<close>. At \<open>1.0\<close> (mantissa 1, scale 0) the stored value is \<open>4294967295\<close>, the
  largest the field holds, and \<open>4294967295\<close> times in \<open>2^32\<close> is not every time; at
  \<open>0.5\<close> (mantissa 1, scale 1) the product \<open>2147483647.5\<close> is truncated.
\<close>

theorem setSanityCheck_counterexample:
  "is_double (Dyadic 1 0) \<and> dyadic_value (Dyadic 1 0) = 1 \<and>
   setSanityCheck (Dyadic 1 0) = Some 4294967295 \<and>
   check_probability 4294967295 \<noteq> dyadic_value (Dyadic 1 0) \<and>
   check_probability 4294967295 < 1 \<and>
   is_double (Dyadic 1 1) \<and> dyadic_value (Dyadic 1 1) = 1 / 2 \<and>
   setSanityCheck (Dyadic 1 1) = Some 2147483647 \<and>
   check_probability 2147483647 \<noteq> dyadic_value (Dyadic 1 1)"
  by (simp add: is_double_def dyadic_value_def check_probability_def setSanityCheck_def
      round_to_double_def bit_length.simps Let_def)

subsection \<open>Sentinel constants\<close>

text \<open>
  Claim C9. The fake coin height of mempool outputs, \<open>MEMPOOL_HEIGHT\<close>, is
  \<open>0x7FFFFFFF\<close> (2147483647 as an unsigned 32-bit value), and the rolling-fee
  half-life \<open>ROLLING_FEE_HALFLIFE\<close>, written \<open>60 * 60 * 12\<close> in the header, is
  43200 seconds.
\<close>

theorem sentinel_constants:
  "MEMPOOL_HEIGHT = 0x7FFFFFFF \<and> uint MEMPOOL_HEIGHT = 2147483647 \<and> ROLLING_FEE_HALFLIFE = 43200"
  by (simp add: MEMPOOL_HEIGHT_def ROLLING_FEE_HALFLIFE_def)

subsection \<open>The hashed index of the disconnected-block buffer\<close>

lemma find_txid_None: "find_txid h q = None \<longleftrightarrow> (\<forall>t \<in> set q. GetHash t \<noteq> h)"
  by (auto simp: find_txid_def find_None_iff)

lemma find_txid_Some: "find_txid h q = Some t \<Longrightarrow> t \<in> set q \<and> GetHash t = h"
  by (auto simp: find_txid_def find_Some_iff)

lemma remove1_unique_txid:
  "distinct (map GetHash q) \<Longrightarrow> t \<in> set q \<Longrightarrow>
   remove1 t q = filter (\<lambda>u. GetHash u \<noteq> GetHash t) q"
proof (induction q)
  case Nil
  then show ?case by simp
next
  case (Cons u q)
  show ?case
  proof (cases "u = t")
    case True
    with Cons.prems have "\<forall>v \<in> set q. GetHash v \<noteq> GetHash t"
      by (auto simp: image_iff)
    then have "filter (\<lambda>v. GetHash v \<noteq> GetHash t) q = q"
      by (simp add: filter_id_conv)
    with True show ?thesis by simp
  next
    case False
    with Cons.prems have "t \<in> set q" and "GetHash u \<noteq> GetHash t" by auto
    with Cons show ?thesis using False by simp
  qed
qed

lemma insert_tx_unique: "distinct (map GetHash q) \<Longrightarrow> distinct (map GetHash (insert_tx t q))"
  by (auto simp: insert_tx_def find_txid_None image_iff split: option.splits)

lemma addTransaction_unique: "unique_txids b \<Longrightarrow> unique_txids (addTransaction t b)"
  by (simp add: unique_txids_def addTransaction_def insert_tx_unique)

lemma removeForBlock_step_queuedTx:
  assumes "unique_txids b"
  shows "queuedTx (removeForBlock_step t b) =
         filter (\<lambda>u. GetHash u \<noteq> GetHash t) (queuedTx b)"
proof (cases "find_txid (GetHash t) (queuedTx b)")
  case None
  then have "filter (\<lambda>u. GetHash u \<noteq> GetHash t) (queuedTx b) = queuedTx b"
    by (simp add: filter_id_conv find_txid_None)
  with None show ?thesis by (simp add: removeForBlock_step_def)
next
  case (Some it)
  then have "it \<in> set (queuedTx b)" and "GetHash it = GetHash t"
    by (auto dest: find_txid_Some)
  with assms Some show ?thesis
    by (simp add: removeForBlock_step_def unique_txids_def remove1_unique_txid)
qed

lemma removeForBlock_step_unique: "unique_txids b \<Longrightarrow> unique_txids (removeForBlock_step t b)"
  using removeForBlock_step_queuedTx [of b t]
  by (simp add: unique_txids_def distinct_map_filter)

lemma removeForBlock_loop_queuedTx:
  "unique_txids b \<Longrightarrow>
   queuedTx (removeForBlock_loop vtx b) =
   filter (\<lambda>u. GetHash u \<notin> GetHash ` set vtx) (queuedTx b)"
proof (induction vtx arbitrary: b)
  case Nil
  then show ?case by simp
next
  case (Cons t vtx)
  have "queuedTx (removeForBlock_loop vtx (removeForBlock_step t b)) =
        filter (\<lambda>u. GetHash u \<notin> GetHash ` set vtx) (queuedTx (removeForBlock_step t b))"
    using Cons.prems by (intro Cons.IH removeForBlock_step_unique)
  also have "\<dots> = filter (\<lambda>u. GetHash u \<notin> GetHash ` set vtx)
                     (filter (\<lambda>u. GetHash u \<noteq> GetHash t) (queuedTx b))"
    using Cons.prems by (simp add: removeForBlock_step_queuedTx)
  also have "\<dots> = filter (\<lambda>u. GetHash u \<notin> GetHash ` set (t # vtx)) (queuedTx b)"
    by (auto intro: filter_cong)
  finally show ?case by simp
qed

lemma removeForBlock_queuedTx:
  "unique_txids b \<Longrightarrow>
   queuedTx (removeForBlock vtx b) =
   filter (\<lambda>u. GetHash u \<notin> GetHash ` set vtx) (queuedTx b)"
  by (simp add: removeForBlock_def removeForBlock_loop_queuedTx)

lemma removeForBlock_unique: "unique_txids b \<Longrightarrow> unique_txids (removeForBlock vtx b)"
  using removeForBlock_queuedTx [of b vtx]
  by (simp add: unique_txids_def distinct_map_filter)

lemma removeEntry_unique:
  assumes "unique_txids b" and "removeEntry entry b = Inr b'"
  shows "unique_txids b'"
proof -
  from assms(2) have lt: "entry < length (queuedTx b)"
    and q': "queuedTx b' = take entry (queuedTx b) @ drop (Suc entry) (queuedTx b)"
    by (auto simp: removeEntry_def split: if_splits)
  from lt have "queuedTx b =
      take entry (queuedTx b) @ (queuedTx b ! entry) # drop (Suc entry) (queuedTx b)"
    by (simp add: id_take_nth_drop)
  then have "distinct (map GetHash
      (take entry (queuedTx b) @ (queuedTx b ! entry) # drop (Suc entry) (queuedTx b)))"
    using assms(1) by (simp add: unique_txids_def)
  then show ?thesis by (simp add: unique_txids_def q')
qed

lemma clear_unique: "unique_txids (clear b)"
  by (simp add: unique_txids_def clear_def)

subsection \<open>Duplicates\<close>

text \<open>
  Claim C4. When the hash of \<open>tx\<close> already appears in \<open>queuedTx\<close>,
  \<open>addTransaction(tx)\<close> leaves the stored transactions as they were: the unique hash
  index rejects the duplicate and no element is added.
\<close>

theorem addTransaction_duplicate_rejected:
  "GetHash t \<in> GetHash ` set (queuedTx b) \<Longrightarrow> queuedTx (addTransaction t b) = queuedTx b"
  by (auto simp: addTransaction_def insert_tx_def find_txid_None split: option.splits)

theorem addTransaction_duplicate_rejected_witness:
  "GetHash \<lparr>GetHash = 7, RecursiveDynamicUsage = 400\<rparr>
     \<in> GetHash ` set (queuedTx \<lparr>queuedTx = [\<lparr>GetHash = 7, RecursiveDynamicUsage = 520\<rparr>],
                                 cachedInnerUsage = 520\<rparr>) \<and>
   queuedTx (addTransaction \<lparr>GetHash = 7, RecursiveDynamicUsage = 400\<rparr>
              \<lparr>queuedTx = [\<lparr>GetHash = 7, RecursiveDynamicUsage = 520\<rparr>], cachedInnerUsage = 520\<rparr>)
     = [\<lparr>GetHash = 7, RecursiveDynamicUsage = 520\<rparr>]"
  using addTransaction_duplicate_rejected
    [of "\<lparr>GetHash = 7, RecursiveDynamicUsage = 400\<rparr>"
        "\<lparr>queuedTx = [\<lparr>GetHash = 7, RecursiveDynamicUsage = 520\<rparr>], cachedInnerUsage = 520\<rparr>"]
  by simp

subsection \<open>Removal of a connected block\<close>

text \<open>
  Claim C5. After \<open>removeForBlock(vtx)\<close> no queued transaction has the hash of an
  element of \<open>vtx\<close>, and the queued transactions whose hash does not appear in
  \<open>vtx\<close> are all still there, in their insertion order: the queue is the old queue
  filtered. The buffer is one the container can hold: its hashes are unique.
\<close>

theorem removeForBlock_removes_block:
  assumes "unique_txids b"
  shows "(\<forall>t \<in> set (queuedTx (removeForBlock vtx b)). GetHash t \<notin> GetHash ` set vtx) \<and>
         queuedTx (removeForBlock vtx b) =
           filter (\<lambda>t. GetHash t \<notin> GetHash ` set vtx) (queuedTx b)"
  using removeForBlock_queuedTx [OF assms, of vtx] by simp

theorem removeForBlock_removes_block_witness:
  "unique_txids \<lparr>queuedTx = [\<lparr>GetHash = 1, RecursiveDynamicUsage = 400\<rparr>,
                              \<lparr>GetHash = 2, RecursiveDynamicUsage = 520\<rparr>,
                              \<lparr>GetHash = 3, RecursiveDynamicUsage = 640\<rparr>],
                  cachedInnerUsage = 1560\<rparr> \<and>
   queuedTx (removeForBlock [\<lparr>GetHash = 2, RecursiveDynamicUsage = 520\<rparr>,
                             \<lparr>GetHash = 9, RecursiveDynamicUsage = 100\<rparr>]
               \<lparr>queuedTx = [\<lparr>GetHash = 1, RecursiveDynamicUsage = 400\<rparr>,
                             \<lparr>GetHash = 2, RecursiveDynamicUsage = 520\<rparr>,
                             \<lparr>GetHash = 3, RecursiveDynamicUsage = 640\<rparr>],
                 cachedInnerUsage = 1560\<rparr>)
     = [\<lparr>GetHash = 1, RecursiveDynamicUsage = 400\<rparr>, \<lparr>GetHash = 3, RecursiveDynamicUsage = 640\<rparr>]"
  using removeForBlock_removes_block
    [of "\<lparr>queuedTx = [\<lparr>GetHash = 1, RecursiveDynamicUsage = 400\<rparr>,
                        \<lparr>GetHash = 2, RecursiveDynamicUsage = 520\<rparr>,
                        \<lparr>GetHash = 3, RecursiveDynamicUsage = 640\<rparr>],
            cachedInnerUsage = 1560\<rparr>"
        "[\<lparr>GetHash = 2, RecursiveDynamicUsage = 520\<rparr>, \<lparr>GetHash = 9, RecursiveDynamicUsage = 100\<rparr>]"]
  by (simp add: unique_txids_def)

subsection \<open>Memory accounting\<close>

lemma addTransaction_fresh_accounted:
  assumes "usage_accounted b" and "GetHash t \<notin> GetHash ` set (queuedTx b)"
  shows "usage_accounted (addTransaction t b)"
proof -
  from assms(2) have "find_txid (GetHash t) (queuedTx b) = None"
    by (auto simp: find_txid_None image_iff)
  with assms(1) show ?thesis
    by (simp add: usage_accounted_def addTransaction_def insert_tx_def)
qed

lemma sum_list_usage_remove1:
  "t \<in> set q \<Longrightarrow>
   sum_list (map RecursiveDynamicUsage (remove1 t q)) =
   sum_list (map RecursiveDynamicUsage q) - RecursiveDynamicUsage t"
  by (induction q) auto

lemma removeForBlock_step_accounted:
  "usage_accounted b \<Longrightarrow> usage_accounted (removeForBlock_step t b)"
  by (auto simp: usage_accounted_def removeForBlock_step_def sum_list_usage_remove1
      dest: find_txid_Some split: option.splits)

lemma removeForBlock_loop_accounted:
  "usage_accounted b \<Longrightarrow> usage_accounted (removeForBlock_loop vtx b)"
  by (induction vtx arbitrary: b) (simp_all add: removeForBlock_step_accounted)

lemma removeForBlock_accounted:
  "usage_accounted b \<Longrightarrow> usage_accounted (removeForBlock vtx b)"
  by (simp add: removeForBlock_def removeForBlock_loop_accounted)

lemma removeEntry_accounted:
  assumes "usage_accounted b" and "removeEntry entry b = Inr b'"
  shows "usage_accounted b'"
proof -
  from assms(2) have lt: "entry < length (queuedTx b)"
    and b': "b' = b\<lparr>cachedInnerUsage :=
                      cachedInnerUsage b - RecursiveDynamicUsage (queuedTx b ! entry),
                    queuedTx := take entry (queuedTx b) @ drop (Suc entry) (queuedTx b)\<rparr>"
    by (auto simp: removeEntry_def split: if_splits)
  from lt have "queuedTx b =
      take entry (queuedTx b) @ (queuedTx b ! entry) # drop (Suc entry) (queuedTx b)"
    by (simp add: id_take_nth_drop)
  then have "sum_list (map RecursiveDynamicUsage (queuedTx b)) =
      sum_list (map RecursiveDynamicUsage
        (take entry (queuedTx b) @ (queuedTx b ! entry) # drop (Suc entry) (queuedTx b)))"
    by simp
  then show ?thesis using assms(1) by (simp add: b' usage_accounted_def)
qed

lemma clear_accounted: "usage_accounted (clear b)"
  by (simp add: usage_accounted_def clear_def)

lemma addTransaction_duplicate_unaccounted:
  assumes "usage_accounted b" and "GetHash t \<in> GetHash ` set (queuedTx b)"
    and "RecursiveDynamicUsage t \<noteq> 0"
  shows "\<not> usage_accounted (addTransaction t b)"
proof -
  from assms(2) obtain u where "find_txid (GetHash t) (queuedTx b) = Some u"
    by (cases "find_txid (GetHash t) (queuedTx b)") (auto simp: find_txid_None)
  then have "queuedTx (addTransaction t b) = queuedTx b"
    by (simp add: addTransaction_def insert_tx_def)
  with assms(1,3) show ?thesis
    by (simp add: usage_accounted_def addTransaction_def)
qed

text \<open>
  Claim C3. \<open>cachedInnerUsage\<close> is to equal the sum of \<open>RecursiveDynamicUsage\<close>
  over the queued transactions, and every operation is to keep it so.
  \<open>removeForBlock\<close>, \<open>removeEntry\<close> and \<open>clear\<close> do (the lemmas above), and so does
  \<open>addTransaction\<close> of a new hash. \<open>addTransaction\<close> of a hash that is already
  queued does not: the insertion is refused, the counter is raised all the same. Here
  a buffer holding one transaction of 400 bytes is given that transaction again: the
  queue still holds it once, the counter reads 800.
\<close>

theorem addTransaction_duplicate_miscounts:
  "usage_accounted \<lparr>queuedTx = [\<lparr>GetHash = 7, RecursiveDynamicUsage = 400\<rparr>],
                     cachedInnerUsage = 400\<rparr> \<and>
   queuedTx (addTransaction \<lparr>GetHash = 7, RecursiveDynamicUsage = 400\<rparr>
              \<lparr>queuedTx = [\<lparr>GetHash = 7, RecursiveDynamicUsage = 400\<rparr>], cachedInnerUsage = 400\<rparr>)
     = [\<lparr>GetHash = 7, RecursiveDynamicUsage = 400\<rparr>] \<and>
   cachedInnerUsage (addTransaction \<lparr>GetHash = 7, RecursiveDynamicUsage = 400\<rparr>
              \<lparr>queuedTx = [\<lparr>GetHash = 7, RecursiveDynamicUsage = 400\<rparr>], cachedInnerUsage = 400\<rparr>)
     = 800 \<and>
   \<not> usage_accounted (addTransaction \<lparr>GetHash = 7, RecursiveDynamicUsage = 400\<rparr>
              \<lparr>queuedTx = [\<lparr>GetHash = 7, RecursiveDynamicUsage = 400\<rparr>], cachedInnerUsage = 400\<rparr>)"
  by (simp add: usage_accounted_def addTransaction_def insert_tx_def find_txid_def)

subsection \<open>Destruction\<close>

text \<open>
  Claim C10. Destroying a buffer whose queue is not empty fails the destructor's
  assertion, and after \<open>clear()\<close> the assertion passes, whatever the buffer held.
\<close>

theorem destroy_needs_drained_buffer:
  "(queuedTx b \<noteq> [] \<longrightarrow> destroy b = Inl AssertionFailed) \<and> destroy (clear b) = Inr ()"
  by (simp add: destroy_def clear_def)

theorem destroy_needs_drained_buffer_witness:
  "queuedTx \<lparr>queuedTx = [\<lparr>GetHash = 7, RecursiveDynamicUsage = 400\<rparr>], cachedInnerUsage = 400\<rparr> \<noteq> [] \<and>
   destroy \<lparr>queuedTx = [\<lparr>GetHash = 7, RecursiveDynamicUsage = 400\<rparr>], cachedInnerUsage = 400\<rparr>
     = Inl AssertionFailed \<and>
   destroy (clear \<lparr>queuedTx = [\<lparr>GetHash = 7, RecursiveDynamicUsage = 400\<rparr>], cachedInnerUsage = 400\<rparr>)
     = Inr ()"
  using destroy_needs_drained_buffer
    [of "\<lparr>queuedTx = [\<lparr>GetHash = 7, RecursiveDynamicUsage = 400\<rparr>], cachedInnerUsage = 400\<rparr>"]
  by simp

end
